theory Spec2Isabelle
  imports Main "HOL-Library.Sublist" "HOL-Library.Multiset" "HOL-Library.Char_ord"
    "HOL-Library.List_Lexorder"
begin

section \<open>The task store of tasks.py\<close>

subsection \<open>Data model\<close>

text \<open>
  A \<open>Task\<close> object has eight attributes. \<open>load_tasks\<close> reads \<open>id\<close>, \<open>created_at\<close>,
  \<open>started_at\<close> and \<open>finished_at\<close> with \<open>dict.get\<close>, so each of them is \<open>None\<close> when the
  record in the file lacks the key: they are options here. Python integers are unbounded
  (\<open>int\<close>), strings are character lists, compared by code point.
\<close>

record task =
  task_id :: "int option"
  title :: string
  desc :: string
  status :: string
  tags :: "string list"
  created_at :: "string option"
  started_at :: "string option"
  finished_at :: "string option"

text \<open>The exceptions the modelled operations can raise.\<close>

datatype error = TypeError | AttributeError | ValueError

text \<open>What an operation hands back to its caller: \<open>None\<close>, \<open>True\<close> or \<open>False\<close>.\<close>

datatype pyval = PyNone | PyBool bool

text \<open>
  The lines the operations print, one constructor per \<open>print\<close> statement that the model
  can reach: the invalid-id error of \<open>view_task\<close> and \<open>update_status\<close>, and the two
  reports of \<open>delete_task\<close> with the id they interpolate.
\<close>

datatype message = InvalidTaskId | DeletedOk int | NotFound int

text \<open>
  The backing file holds the collection; \<open>writes\<close> counts how often \<open>save_tasks\<close> rewrote
  it and \<open>out\<close> is what has been printed. A file that does not exist loads as the empty
  list, so it is the empty collection here. The file system is taken to be reliable: the
  file parses and every write succeeds, so the \<open>except\<close> branches of \<open>load_tasks\<close> and
  \<open>save_tasks\<close> are not taken.
\<close>

record store =
  tasks_json :: "task list"
  writes :: nat
  out :: "message list"

definition empty_store :: store where
  "empty_store = \<lparr>tasks_json = [], writes = 0, out = []\<rparr>"

text \<open>\<open>Task.__init__\<close>; \<open>now\<close> is the formatted \<open>datetime.now()\<close> of the call.\<close>

definition Task_init :: "string \<Rightarrow> string \<Rightarrow> string list \<Rightarrow> string \<Rightarrow> task" where
  "Task_init ttl dsc tgs now =
     \<lparr>task_id = None, title = ttl, desc = dsc, status = ''todo'',
      tags = (if tgs \<noteq> [] then tgs else []), created_at = Some now,
      started_at = None, finished_at = None\<rparr>"

subsection \<open>Persistence\<close>

definition load_tasks :: "store \<Rightarrow> task list" where
  "load_tasks s = tasks_json s"

definition save_tasks :: "task list \<Rightarrow> store \<Rightarrow> store" where
  "save_tasks tasks s = s\<lparr>tasks_json := tasks, writes := Suc (writes s)\<rparr>"

definition py_print :: "message \<Rightarrow> store \<Rightarrow> store" where
  "py_print m s = s\<lparr>out := out s @ [m]\<rparr>"

subsection \<open>Creation\<close>

text \<open>
  \<open>a > b\<close> on ids: between two integers it is the order of the integers, and with
  \<open>None\<close> on either side Python raises \<open>TypeError\<close>.
\<close>

fun py_gt :: "int option \<Rightarrow> int option \<Rightarrow> error + bool" where
  "py_gt (Some a) (Some b) = Inr (a > b)"
| "py_gt _ _ = Inl TypeError"

text \<open>
  The builtin \<open>max\<close> over an iterable: the first item is the running maximum, and every
  later item replaces it when \<open>item > maximum\<close>. An empty iterable raises \<open>ValueError\<close>.
\<close>

fun py_max_loop :: "int option \<Rightarrow> int option list \<Rightarrow> error + int option" where
  "py_max_loop m [] = Inr m"
| "py_max_loop m (x # xs) =
     (case py_gt x m of
        Inl e \<Rightarrow> Inl e
      | Inr b \<Rightarrow> py_max_loop (if b then x else m) xs)"

fun py_max :: "int option list \<Rightarrow> error + int option" where
  "py_max [] = Inl ValueError"
| "py_max (x # xs) = py_max_loop x xs"

text \<open>\<open>highest_id + 1\<close>: \<open>None + 1\<close> raises \<open>TypeError\<close>.\<close>

fun py_add :: "int option \<Rightarrow> int \<Rightarrow> error + int" where
  "py_add (Some a) b = Inr (a + b)"
| "py_add None b = Inl TypeError"

text \<open>
  \<open>new_task\<close> has no \<open>try\<close>: an exception raised by \<open>max\<close> or by the addition leaves the
  function, and the file is not written.
\<close>

definition new_task :: "string \<Rightarrow> string \<Rightarrow> string \<Rightarrow> string list \<Rightarrow> store \<Rightarrow> error + store" where
  "new_task now ttl dsc tgs s =
     (let tasks = load_tasks s in
      case (if tasks \<noteq> [] then py_max (map task_id tasks) else Inr (Some 0)) of
        Inl e \<Rightarrow> Inl e
      | Inr highest_id \<Rightarrow>
          (case py_add highest_id 1 of
             Inl e \<Rightarrow> Inl e
           | Inr new_id \<Rightarrow>
               Inr (save_tasks (tasks @ [(Task_init ttl dsc tgs now)\<lparr>task_id := Some new_id\<rparr>]) s)))"

subsection \<open>Lookup and deletion\<close>

definition view_task :: "int \<Rightarrow> store \<Rightarrow> task option \<times> store" where
  "view_task tid s =
     (if tid \<le> 0 then (None, py_print InvalidTaskId s)
      else (find (\<lambda>t. task_id t = Some tid) (load_tasks s), s))"

text \<open>
  \<open>delete_task\<close> has no \<open>return\<close> statement: it hands back \<open>None\<close> on both branches and
  reports through what it prints. The scan stops at the first task with the id, and
  \<open>list.remove\<close> takes out the first element equal to that task.
\<close>

definition delete_task :: "int \<Rightarrow> store \<Rightarrow> pyval \<times> store" where
  "delete_task tid s =
     (let tasks = load_tasks s in
      case find (\<lambda>t. task_id t = Some tid) tasks of
        Some task_to_delete \<Rightarrow>
          (PyNone, py_print (DeletedOk tid) (save_tasks (remove1 task_to_delete tasks) s))
      | None \<Rightarrow> (PyNone, py_print (NotFound tid) s))"

subsection \<open>Status transitions\<close>

text \<open>
  The loop of \<open>update_status\<close>: the first task with the id is changed in place and the
  loop returns; \<open>None\<close> here is the loop running to its end without a match.
\<close>

fun apply_first :: "(task \<Rightarrow> bool) \<Rightarrow> (task \<Rightarrow> task) \<Rightarrow> task list \<Rightarrow> task list option" where
  "apply_first p f [] = None"
| "apply_first p f (t # ts) =
     (if p t then Some (f t # ts) else map_option ((#) t) (apply_first p f ts))"

definition set_status :: "string \<Rightarrow> string \<Rightarrow> task \<Rightarrow> task" where
  "set_status now action t =
     (if action = ''start'' then t\<lparr>status := ''in_progress'', started_at := Some now\<rparr>
      else if action = ''finish'' then t\<lparr>status := ''done'', finished_at := Some now\<rparr>
      else t)"

text \<open>
  Every task of the model has all its attributes, so nothing inside the \<open>try\<close> of
  \<open>update_status\<close> raises and its two handlers are not taken.
\<close>

definition update_status :: "string \<Rightarrow> int \<Rightarrow> string \<Rightarrow> store \<Rightarrow> pyval \<times> store" where
  "update_status now tid action s =
     (if tid \<le> 0 then (PyNone, py_print InvalidTaskId s)
      else case apply_first (\<lambda>t. task_id t = Some tid) (set_status now action) (load_tasks s) of
             Some tasks \<Rightarrow> (PyBool True, save_tasks tasks s)
           | None \<Rightarrow> (PyBool False, s))"

subsection \<open>Queries\<close>

text \<open>
  The value of an attribute as \<open>getattr\<close> returns it: \<open>None\<close>, an integer, a string, a
  list of strings, or a value of another kind, which has no ordering (a dictionary, a
  class, a bound method).

  \<open>getattr\<close> finds the eight instance attributes first. Any other name is looked up in
  the class: what \<open>Task\<close> inherits from \<open>object\<close> (\<open>__module__\<close>, \<open>__doc__\<close>,
  \<open>__class__\<close>, the special methods) is fixed by the Python runtime and is the parameter
  \<open>inherited\<close> here, which gives the value of such a name, the same for every task, and
  \<open>None\<close> for a name that is no attribute at all; that one raises \<open>AttributeError\<close>.
\<close>

datatype attr = ANone | AInt int | AStr string | AList "string list" | AOther

definition opt_str :: "string option \<Rightarrow> attr" where
  "opt_str v = (case v of None \<Rightarrow> ANone | Some x \<Rightarrow> AStr x)"

definition getattr :: "(string \<Rightarrow> attr option) \<Rightarrow> task \<Rightarrow> string \<Rightarrow> error + attr" where
  "getattr inherited t name =
     (if name = ''id'' then Inr (case task_id t of None \<Rightarrow> ANone | Some i \<Rightarrow> AInt i)
      else if name = ''title'' then Inr (AStr (title t))
      else if name = ''desc'' then Inr (AStr (desc t))
      else if name = ''status'' then Inr (AStr (status t))
      else if name = ''tags'' then Inr (AList (tags t))
      else if name = ''created_at'' then Inr (opt_str (created_at t))
      else if name = ''started_at'' then Inr (opt_str (started_at t))
      else if name = ''finished_at'' then Inr (opt_str (finished_at t))
      else (case inherited name of None \<Rightarrow> Inl AttributeError | Some v \<Rightarrow> Inr v))"

definition sentinel :: string where
  "sentinel = ''0000-00-00 00:00''"

text \<open>The local function \<open>sort_key\<close> of \<open>list_tasks\<close>.\<close>

definition sort_key_py :: "(string \<Rightarrow> attr option) \<Rightarrow> string \<Rightarrow> task \<Rightarrow> error + attr" where
  "sort_key_py inherited sort_arg t =
     (case getattr inherited t sort_arg of
        Inl e \<Rightarrow> Inl e
      | Inr v \<Rightarrow>
          if v = ANone \<and> sort_arg \<in> set [''created_at'', ''started_at'', ''finished_at'']
          then Inr (AStr sentinel) else Inr v)"

text \<open>\<open>list.sort\<close> first computes the key of every element, in order.\<close>

fun compute_keys :: "(string \<Rightarrow> attr option) \<Rightarrow> string \<Rightarrow> task list \<Rightarrow> error + attr list" where
  "compute_keys inherited sort_arg [] = Inr []"
| "compute_keys inherited sort_arg (t # ts) =
     (case sort_key_py inherited sort_arg t of
        Inl e \<Rightarrow> Inl e
      | Inr k \<Rightarrow> (case compute_keys inherited sort_arg ts of Inl e \<Rightarrow> Inl e | Inr ks \<Rightarrow> Inr (k # ks)))"

fun strs_of :: "attr list \<Rightarrow> string list option" where
  "strs_of [] = Some []"
| "strs_of (AStr v # ks) = map_option ((#) v) (strs_of ks)"
| "strs_of (_ # ks) = None"

fun ints_of :: "attr list \<Rightarrow> int list option" where
  "ints_of [] = Some []"
| "ints_of (AInt v # ks) = map_option ((#) v) (ints_of ks)"
| "ints_of (_ # ks) = None"

fun lists_of :: "attr list \<Rightarrow> string list list option" where
  "lists_of [] = Some []"
| "lists_of (AList v # ks) = map_option ((#) v) (lists_of ks)"
| "lists_of (_ # ks) = None"

text \<open>
  The sort itself is stable and ascending on the keys, which travel with their tasks.
  Fewer than two elements need no comparison. With two or more, every key is compared
  at least once: strings, integers and lists of strings are ordered among themselves
  (strings and lists lexicographically), and a comparison with \<open>None\<close>, with a value
  that has no ordering, or between two of these kinds raises \<open>TypeError\<close>.
\<close>

definition py_sort :: "attr list \<Rightarrow> task list \<Rightarrow> error + task list" where
  "py_sort ks tasks =
     (if length tasks \<le> 1 then Inr tasks
      else case strs_of ks of
        Some vs \<Rightarrow> Inr (map snd (sort_key fst (zip vs tasks)))
      | None \<Rightarrow>
          (case ints_of ks of
             Some vs \<Rightarrow> Inr (map snd (sort_key fst (zip vs tasks)))
           | None \<Rightarrow>
               (case lists_of ks of
                  Some vs \<Rightarrow> Inr (map snd (sort_key fst (zip vs tasks)))
                | None \<Rightarrow> Inl TypeError)))"

text \<open>
  An optional argument of \<open>list_tasks\<close> takes effect under \<open>if arg:\<close>, that is when it is
  neither \<open>None\<close> nor the empty string; \<open>stage\<close> is one such block of the pipeline.
  \<open>tag in task.tags\<close> is list membership, \<open>search in task.title\<close> is the substring test.
  The result lists the tasks themselves (\<open>vars(task)\<close>, the attribute dictionary).
\<close>

fun stage :: "string option \<Rightarrow> (string \<Rightarrow> task \<Rightarrow> bool) \<Rightarrow> task list \<Rightarrow> task list" where
  "stage None keep tasks = tasks"
| "stage (Some v) keep tasks = (if v \<noteq> [] then filter (keep v) tasks else tasks)"

definition list_tasks ::
  "(string \<Rightarrow> attr option) \<Rightarrow> string option \<Rightarrow> string option \<Rightarrow> string option \<Rightarrow>
     string option \<Rightarrow> store \<Rightarrow> error + task list" where
  "list_tasks inherited status_arg tag sort_arg search s =
     (let tasks = load_tasks s;
          tasks = stage status_arg (\<lambda>v t. status t = v) tasks;
          tasks = stage tag (\<lambda>v t. v \<in> set (tags t)) tasks;
          tasks = stage search (\<lambda>v t. sublist v (title t) \<or> sublist v (desc t)) tasks
      in case sort_arg of
           None \<Rightarrow> Inr tasks
         | Some k \<Rightarrow>
             if k = [] then Inr tasks
             else (case compute_keys inherited k tasks of Inl e \<Rightarrow> Inl e | Inr ks \<Rightarrow> py_sort ks tasks))"

subsection \<open>Sequences of operations\<close>

text \<open>
  A create carries the clock reading of its call and the three arguments of \<open>new_task\<close>;
  a delete carries the id. A run stops at the first exception.
\<close>

datatype op = Create string string string "string list" | Delete int

fun is_create :: "op \<Rightarrow> bool" where
  "is_create (Create now ttl dsc tgs) = True"
| "is_create (Delete tid) = False"

fun step :: "op \<Rightarrow> store \<Rightarrow> error + store" where
  "step (Create now ttl dsc tgs) s = new_task now ttl dsc tgs s"
| "step (Delete tid) s = Inr (snd (delete_task tid s))"

fun run :: "op list \<Rightarrow> store \<Rightarrow> error + store" where
  "run [] s = Inr s"
| "run (x # xs) s = (case step x s of Inl e \<Rightarrow> Inl e | Inr s' \<Rightarrow> run xs s')"

text \<open>The ids handed out by the creates of a run, in the order of the creates.\<close>

fun assigned_ids :: "op list \<Rightarrow> store \<Rightarrow> int option list" where
  "assigned_ids [] s = []"
| "assigned_ids (x # xs) s =
     (case step x s of
        Inl e \<Rightarrow> []
      | Inr s' \<Rightarrow>
          (if is_create x then [task_id (last (tasks_json s'))] else []) @ assigned_ids xs s')"

text \<open>
  All ids are integers above \<open>lo\<close> and grow strictly along the collection.
\<close>

fun ids_increasing :: "int \<Rightarrow> task list \<Rightarrow> bool" where
  "ids_increasing lo [] = True"
| "ids_increasing lo (t # ts) =
     (case task_id t of None \<Rightarrow> False | Some i \<Rightarrow> lo < i \<and> ids_increasing i ts)"

text \<open>The highest of a list of ids, 0 for the empty list.\<close>

fun highest :: "int list \<Rightarrow> int" where
  "highest [] = 0"
| "highest (n # ns) = fold max ns n"

text \<open>The ids of the collection after a run, \<open>None\<close> when the run raised.\<close>

definition ids_after :: "op list \<Rightarrow> store \<Rightarrow> int option list option" where
  "ids_after ops s =
     (case run ops s of Inl e \<Rightarrow> None | Inr s' \<Rightarrow> Some (map task_id (tasks_json s')))"

text \<open>
  The id invariant of the data model: every id is a positive integer and no two tasks
  share one.
\<close>

definition valid_ids :: "task list \<Rightarrow> bool" where
  "valid_ids tasks =
     (list_all (\<lambda>t. case task_id t of None \<Rightarrow> False | Some i \<Rightarrow> 0 < i) tasks \<and>
      distinct (map task_id tasks))"

text \<open>A sample task with a given id and status, for the concrete runs below.\<close>

definition demo_task :: "int \<Rightarrow> string \<Rightarrow> task" where
  "demo_task i st = (Task_init ''Buy milk'' ''2% milk'' [''errand''] ''2024-05-01 09:00'')
     \<lparr>task_id := Some i, status := st\<rparr>"

text \<open>The string a timestamp attribute is sorted by: the sentinel when it is \<open>None\<close>.\<close>

fun or_sentinel :: "string option \<Rightarrow> string" where
  "or_sentinel None = sentinel"
| "or_sentinel (Some v) = v"

text \<open>
  The strings that \<open>strftime('%Y-%m-%d %H:%M')\<close> produces for a four-digit year are
  among these: sixteen characters, digits around the separators, and a month that is
  not \<open>00\<close>.
\<close>

definition is_digit :: "char \<Rightarrow> bool" where
  "is_digit c = (CHR ''0'' \<le> c \<and> c \<le> CHR ''9'')"

fun is_timestamp :: "string \<Rightarrow> bool" where
  "is_timestamp [y1, y2, y3, y4, d1, m1, m2, d2, a1, a2, sp, h1, h2, cl, n1, n2] =
     (list_all is_digit [y1, y2, y3, y4, m1, m2, a1, a2, h1, h2, n1, n2] \<and>
      d1 = CHR ''-'' \<and> d2 = CHR ''-'' \<and> sp = CHR '' '' \<and> cl = CHR '':'' \<and>
      [m1, m2] \<noteq> ''00'')"
| "is_timestamp _ = False"

text \<open>An optional string argument is given when \<open>if arg:\<close> holds.\<close>

fun given :: "string option \<Rightarrow> bool" where
  "given None = False"
| "given (Some v) = (v \<noteq> [])"

section \<open>Properties\<close>

subsection \<open>Id allocation\<close>

lemma py_max_loop_Some: "py_max_loop (Some m) (map Some ns) = Inr (Some (fold max ns m))"
  by (induction ns arbitrary: m) (auto simp: max_def)

lemma new_task_highest:
  assumes "map task_id (tasks_json s) = map Some ns"
  shows "new_task now ttl dsc tgs s =
    Inr (save_tasks (tasks_json s @ [(Task_init ttl dsc tgs now)\<lparr>task_id := Some (highest ns + 1)\<rparr>]) s)"
proof (cases ns)
  case Nil
  with assms show ?thesis by (simp add: new_task_def load_tasks_def)
next
  case (Cons n ms)
  with assms have ne: "tasks_json s \<noteq> []" by auto
  from assms Cons have "py_max (map task_id (tasks_json s)) = Inr (Some (highest ns))"
    by (simp add: py_max_loop_Some)
  with ne show ?thesis by (simp add: new_task_def load_tasks_def)
qed

lemma fold_max_ge: "(m::int) \<le> fold max ns m"
proof (induction ns arbitrary: m)
  case Nil
  show ?case by simp
next
  case (Cons n ns)
  have "m \<le> max n m" by simp
  also have "\<dots> \<le> fold max ns (max n m)" by (rule Cons.IH)
  finally show ?case by simp
qed

lemma fold_max_mem: "n \<in> set ns \<Longrightarrow> (n::int) \<le> fold max ns m"
proof (induction ns arbitrary: m)
  case Nil
  then show ?case by simp
next
  case (Cons k ns)
  show ?case
  proof (cases "n = k")
    case True
    have "k \<le> max k m" by simp
    also have "\<dots> \<le> fold max ns (max k m)" by (rule fold_max_ge)
    finally show ?thesis using True by simp
  next
    case False
    with Cons.prems have "n \<in> set ns" by simp
    then show ?thesis using Cons.IH by simp
  qed
qed

lemma highest_ge: "n \<in> set ns \<Longrightarrow> n \<le> highest ns"
  by (cases ns) (auto simp: fold_max_ge fold_max_mem)

lemma highest_nonneg: "\<forall>n\<in>set ns. 0 \<le> n \<Longrightarrow> 0 \<le> highest ns"
proof (cases ns)
  case Nil
  then show ?thesis by simp
next
  case (Cons n ms)
  assume "\<forall>n\<in>set ns. 0 \<le> n"
  with Cons have "0 \<le> n" by simp
  also have "n \<le> highest ns" using Cons by (simp add: fold_max_ge)
  finally show ?thesis .
qed

lemma ids_increasing_weaken: "ids_increasing i ts \<Longrightarrow> lo \<le> i \<Longrightarrow> ids_increasing lo ts"
  by (cases ts) (auto split: option.splits)

lemma ids_increasing_remove1: "ids_increasing lo ts \<Longrightarrow> ids_increasing lo (remove1 t ts)"
proof (induction ts arbitrary: lo)
  case Nil
  then show ?case by simp
next
  case (Cons x ts)
  then obtain i where i: "task_id x = Some i" "lo < i" "ids_increasing i ts"
    by (auto split: option.splits)
  show ?case
  proof (cases "t = x")
    case True
    with i show ?thesis by (simp add: ids_increasing_weaken)
  next
    case False
    with i Cons.IH show ?thesis by simp
  qed
qed

lemma ids_increasing_iff:
  "ids_increasing lo ts \<longleftrightarrow>
     (\<exists>ns. map task_id ts = map Some ns \<and> sorted_wrt (<) (lo # ns))"
proof (induction ts arbitrary: lo)
  case Nil
  show ?case by simp
next
  case (Cons t ts)
  show ?case
  proof
    assume "ids_increasing lo (t # ts)"
    then obtain i where i: "task_id t = Some i" "lo < i" "ids_increasing i ts"
      by (auto split: option.splits)
    with Cons.IH obtain ns where ns: "map task_id ts = map Some ns" "sorted_wrt (<) (i # ns)"
      by blast
    from i ns have "map task_id (t # ts) = map Some (i # ns) \<and> sorted_wrt (<) (lo # i # ns)"
      by auto
    then show "\<exists>ns. map task_id (t # ts) = map Some ns \<and> sorted_wrt (<) (lo # ns)"
      by blast
  next
    assume "\<exists>ns. map task_id (t # ts) = map Some ns \<and> sorted_wrt (<) (lo # ns)"
    then obtain ns where ns: "map task_id (t # ts) = map Some ns" "sorted_wrt (<) (lo # ns)"
      by blast
    then obtain i ms where ms: "ns = i # ms" "task_id t = Some i" "map task_id ts = map Some ms"
      by (cases ns) auto
    with ns have "lo < i" "sorted_wrt (<) (i # ms)" by auto
    with ms Cons.IH show "ids_increasing lo (t # ts)" by auto
  qed
qed

lemma ids_increasing_new_task:
  assumes "ids_increasing 0 (tasks_json s)"
  shows "\<exists>s'. new_task now ttl dsc tgs s = Inr s' \<and> ids_increasing 0 (tasks_json s')"
proof -
  from assms obtain ns where ns: "map task_id (tasks_json s) = map Some ns" "sorted_wrt (<) (0 # ns)"
    by (auto simp: ids_increasing_iff)
  let ?t = "(Task_init ttl dsc tgs now)\<lparr>task_id := Some (highest ns + 1)\<rparr>"
  let ?s' = "save_tasks (tasks_json s @ [?t]) s"
  have eq: "new_task now ttl dsc tgs s = Inr ?s'"
    using ns(1) by (rule new_task_highest)
  have pos: "\<forall>n\<in>set ns. 0 \<le> n" using ns(2) by auto
  have "\<forall>n\<in>set ns. n < highest ns + 1"
    using highest_ge by force
  moreover have "0 < highest ns + 1" using highest_nonneg [OF pos] by simp
  ultimately have "sorted_wrt (<) (0 # (ns @ [highest ns + 1]))"
    using ns(2) by (auto simp: sorted_wrt_append)
  moreover have "map task_id (tasks_json ?s') = map Some (ns @ [highest ns + 1])"
    using ns(1) by (simp add: save_tasks_def)
  ultimately have "ids_increasing 0 (tasks_json ?s')"
    unfolding ids_increasing_iff by blast
  with eq show ?thesis by blast
qed

lemma ids_increasing_delete_task:
  "ids_increasing lo (tasks_json s) \<Longrightarrow> ids_increasing lo (tasks_json (snd (delete_task tid s)))"
  by (auto simp: delete_task_def load_tasks_def save_tasks_def py_print_def Let_def
      ids_increasing_remove1 split: option.splits)

lemma ids_increasing_run:
  "ids_increasing 0 (tasks_json s) \<Longrightarrow>
     \<exists>s'. run ops s = Inr s' \<and> ids_increasing 0 (tasks_json s')"
proof (induction ops arbitrary: s)
  case Nil
  then show ?case by simp
next
  case (Cons x xs)
  have "\<exists>s1. step x s = Inr s1 \<and> ids_increasing 0 (tasks_json s1)"
  proof (cases x)
    case (Create now ttl dsc tgs)
    with Cons.prems show ?thesis by (simp add: ids_increasing_new_task)
  next
    case (Delete tid)
    with Cons.prems show ?thesis by (simp add: ids_increasing_delete_task)
  qed
  then obtain s1 where s1: "step x s = Inr s1" "ids_increasing 0 (tasks_json s1)" by blast
  from Cons.IH [OF s1(2)] s1(1) show ?case by simp
qed

lemma highest_upto: "0 \<le> k \<Longrightarrow> highest [1..k] = k"
proof -
  assume k: "0 \<le> k"
  show ?thesis
  proof (cases "k = 0")
    case True
    then show ?thesis by simp
  next
    case False
    with k have "1 \<le> k" by simp
    then have u: "[1..k] = 1 # [2..k]" by (simp add: upto_rec1)
    have "highest [1..k] = fold max [2..k] 1" by (simp add: u)
    also have "\<dots> = Max (set (1 # [2..k]))" by (simp only: Max.set_eq_fold)
    also have "\<dots> = Max {1..k}" by (simp only: u [symmetric] set_upto)
    also have "\<dots> = k" using \<open>1 \<le> k\<close> by (simp add: Max_eq_iff)
    finally show ?thesis .
  qed
qed

lemma creates_only_run:
  "\<forall>x\<in>set ops. is_create x \<Longrightarrow> map task_id (tasks_json s) = map Some [1..int k] \<Longrightarrow>
     \<exists>s'. run ops s = Inr s' \<and> map task_id (tasks_json s') = map Some [1..int (k + length ops)]"
proof (induction ops arbitrary: s k)
  case Nil
  then show ?case by simp
next
  case (Cons x xs)
  from Cons.prems(1) obtain now ttl dsc tgs where x: "x = Create now ttl dsc tgs"
    by (cases x) auto
  let ?t = "(Task_init ttl dsc tgs now)\<lparr>task_id := Some (highest [1..int k] + 1)\<rparr>"
  let ?s1 = "save_tasks (tasks_json s @ [?t]) s"
  have st: "step x s = Inr ?s1"
    using x new_task_highest [OF Cons.prems(2)] by simp
  have "[1..int (Suc k)] = [1..int k] @ [int k + 1]"
    using upto_rec2 [of 1 "int (Suc k)"] by (simp add: add.commute)
  then have "map task_id (tasks_json ?s1) = map Some [1..int (Suc k)]"
    using Cons.prems(2) by (simp add: save_tasks_def highest_upto)
  moreover have "\<forall>x\<in>set xs. is_create x" using Cons.prems(1) by simp
  ultimately obtain s' where "run xs ?s1 = Inr s'"
    "map task_id (tasks_json s') = map Some [1..int (Suc k + length xs)]"
    using Cons.IH by blast
  with st show ?case by simp
qed

text \<open>
  Claim C2, as the code has it. After every sequence of creates and deletes on an
  initially empty store the ids of the collection are integers above 0 that grow
  strictly along the collection, and the next create assigns the highest id present
  (0 for the empty collection) plus 1. When the sequence holds creates only, the ids
  are exactly 1, 2, ..., n.
\<close>

theorem create_ids:
  "\<exists>s ns. run ops empty_store = Inr s \<and> map task_id (tasks_json s) = map Some ns \<and>
      sorted_wrt (<) (0 # ns) \<and>
      ((\<forall>x\<in>set ops. is_create x) \<longrightarrow> ns = [1..int (length ops)]) \<and>
      (\<forall>now ttl dsc tgs. \<exists>t. new_task now ttl dsc tgs s = Inr (save_tasks (tasks_json s @ [t]) s)
           \<and> task_id t = Some (highest ns + 1))"
proof -
  have "ids_increasing 0 (tasks_json empty_store)" by (simp add: empty_store_def)
  then obtain s where s: "run ops empty_store = Inr s" "ids_increasing 0 (tasks_json s)"
    using ids_increasing_run by blast
  then obtain ns where ns: "map task_id (tasks_json s) = map Some ns" "sorted_wrt (<) (0 # ns)"
    by (auto simp: ids_increasing_iff)
  have new: "\<exists>t. new_task now ttl dsc tgs s = Inr (save_tasks (tasks_json s @ [t]) s)
           \<and> task_id t = Some (highest ns + 1)" for now ttl dsc tgs
    using new_task_highest [OF ns(1)]
    by (intro exI [of _ "(Task_init ttl dsc tgs now)\<lparr>task_id := Some (highest ns + 1)\<rparr>"]) simp
  have only: "ns = [1..int (length ops)]" if c: "\<forall>x\<in>set ops. is_create x"
  proof -
    have "map task_id (tasks_json empty_store) = map Some [1..int 0]"
      by (simp add: empty_store_def)
    from creates_only_run [OF c this] s(1) ns(1)
    have "map Some ns = map Some [1..int (length ops)]" by auto
    then show ?thesis by (simp add: inj_map_eq_map)
  qed
  from s(1) ns new only show ?thesis by blast
qed

text \<open>Two creates on the empty store give the ids 1 and 2.\<close>

theorem create_ids_witness:
  "\<exists>s ns. run [Create ''2024-05-01 09:00'' ''a'' ''b'' [], Create ''2024-05-01 09:01'' ''c'' ''d'' []]
        empty_store = Inr s \<and> map task_id (tasks_json s) = map Some ns \<and> ns = [1, 2]"
proof -
  let ?ops = "[Create ''2024-05-01 09:00'' ''a'' ''b'' [], Create ''2024-05-01 09:01'' ''c'' ''d'' []]"
  have c: "\<forall>x\<in>set ?ops. is_create x" by simp
  have u: "[1..int (length ?ops)] = [1, 2]" by (simp add: upto_rec1)
  from create_ids [of ?ops] c u show ?thesis by auto
qed

text \<open>
  Claim C2 as stated fails once a delete is interleaved: three creates and the deletion
  of task 2 leave the ids 1 and 3.
\<close>

theorem ids_gap_after_delete:
  "ids_after [Create ''2024-05-01 09:00'' ''a'' ''b'' [], Create ''2024-05-01 09:01'' ''c'' ''d'' [],
              Create ''2024-05-01 09:02'' ''e'' ''f'' [], Delete 2] empty_store = Some [Some 1, Some 3]"
  by (simp add: ids_after_def empty_store_def new_task_def delete_task_def load_tasks_def
      save_tasks_def py_print_def Task_init_def)

subsection \<open>Deletion\<close>

lemma find_split:
  "find P xs = Some t \<Longrightarrow>
     \<exists>ys zs. xs = ys @ t # zs \<and> P t \<and> (\<forall>y\<in>set ys. \<not> P y) \<and> remove1 t xs = ys @ zs"
proof (induction xs)
  case Nil
  then show ?case by simp
next
  case (Cons x xs)
  show ?case
  proof (cases "P x")
    case True
    with Cons.prems have "t = x" by simp
    with True have "x # xs = [] @ t # xs \<and> P t \<and> (\<forall>y\<in>set []. \<not> P y) \<and> remove1 t (x # xs) = [] @ xs"
      by simp
    then show ?thesis by blast
  next
    case False
    with Cons.prems have "find P xs = Some t" by simp
    with Cons.IH obtain ys zs where
      s: "xs = ys @ t # zs" "P t" "\<forall>y\<in>set ys. \<not> P y" "remove1 t xs = ys @ zs"
      by blast
    from s(2) False have "x \<noteq> t" by auto
    with s False
    have "x # xs = (x # ys) @ t # zs \<and> P t \<and> (\<forall>y\<in>set (x # ys). \<not> P y) \<and>
        remove1 t (x # xs) = (x # ys) @ zs"
      by simp
    then show ?thesis by blast
  qed
qed

lemma find_None_set: "find P xs = None \<longleftrightarrow> (\<forall>x\<in>set xs. \<not> P x)"
  by (induction xs) auto

lemma delete_task_found:
  assumes "find (\<lambda>t. task_id t = Some tid) (tasks_json s) = Some t"
  shows "delete_task tid s = (PyNone, py_print (DeletedOk tid) (save_tasks (remove1 t (tasks_json s)) s))"
  using assms by (simp add: delete_task_def load_tasks_def)

lemma delete_task_missing:
  assumes "find (\<lambda>t. task_id t = Some tid) (tasks_json s) = None"
  shows "delete_task tid s = (PyNone, py_print (NotFound tid) s)"
  using assms by (simp add: delete_task_def load_tasks_def)

text \<open>
  Claim C3, as the code has it. For every id and every store, \<open>delete_task\<close> hands back
  \<open>None\<close>, whether or not a task was removed; the outcome is reported only by the line it
  prints: the success line when a task with the id existed, the not-found line when
  none did.
\<close>

theorem delete_task_returns_none:
  "fst (delete_task tid s) = PyNone \<and>
   out (snd (delete_task tid s)) =
     out s @ [if \<exists>t\<in>set (tasks_json s). task_id t = Some tid
              then DeletedOk tid else NotFound tid]"
proof (cases "find (\<lambda>t. task_id t = Some tid) (tasks_json s)")
  case None
  then show ?thesis
    by (simp add: delete_task_missing py_print_def find_None_set)
next
  case (Some t)
  with find_split [OF Some] have "\<exists>t\<in>set (tasks_json s). task_id t = Some tid"
    by auto
  with Some show ?thesis
    by (simp add: delete_task_found py_print_def save_tasks_def)
qed

text \<open>
  Claim C3 as stated fails: deleting the existing task 1 removes it, and what comes
  back is \<open>None\<close>, not \<open>True\<close>.
\<close>

theorem delete_task_no_flag:
  "delete_task 1 \<lparr>tasks_json = [demo_task 1 ''todo''], writes = 0, out = []\<rparr> =
     (PyNone, \<lparr>tasks_json = [], writes = 1, out = [DeletedOk 1]\<rparr>)"
  by (simp add: delete_task_def load_tasks_def save_tasks_def py_print_def demo_task_def
      Task_init_def)

text \<open>
  Claim C9. When a task with the id is in the collection, \<open>delete_task\<close> takes out the
  first task with that id: the tasks before and after it stay as they were, in order,
  the collection is one shorter and the file is rewritten once. When no task has the
  id, the collection is unchanged and the file is not rewritten.
\<close>

theorem delete_task_frame:
  "((\<exists>t\<in>set (tasks_json s). task_id t = Some tid) \<longrightarrow>
      (\<exists>xs t ys. tasks_json s = xs @ t # ys \<and> task_id t = Some tid \<and>
         (\<forall>x\<in>set xs. task_id x \<noteq> Some tid) \<and>
         tasks_json (snd (delete_task tid s)) = xs @ ys \<and>
         Suc (length (tasks_json (snd (delete_task tid s)))) = length (tasks_json s) \<and>
         writes (snd (delete_task tid s)) = Suc (writes s))) \<and>
   (\<not> (\<exists>t\<in>set (tasks_json s). task_id t = Some tid) \<longrightarrow>
      tasks_json (snd (delete_task tid s)) = tasks_json s \<and>
      writes (snd (delete_task tid s)) = writes s)"
proof (cases "find (\<lambda>t. task_id t = Some tid) (tasks_json s)")
  case None
  then have "\<not> (\<exists>t\<in>set (tasks_json s). task_id t = Some tid)"
    by (simp add: find_None_set)
  moreover from None have "snd (delete_task tid s) = py_print (NotFound tid) s"
    by (simp add: delete_task_missing)
  ultimately show ?thesis by (simp add: py_print_def)
next
  case (Some t)
  from find_split [OF Some] obtain xs ys where
    s: "tasks_json s = xs @ t # ys" "task_id t = Some tid" "\<forall>x\<in>set xs. task_id x \<noteq> Some tid"
      "remove1 t (tasks_json s) = xs @ ys"
    by blast
  from Some have d: "snd (delete_task tid s) =
      py_print (DeletedOk tid) (save_tasks (remove1 t (tasks_json s)) s)"
    by (simp add: delete_task_found)
  have "tasks_json (snd (delete_task tid s)) = xs @ ys"
    by (simp add: d s(4) py_print_def save_tasks_def)
  moreover have "writes (snd (delete_task tid s)) = Suc (writes s)"
    by (simp add: d py_print_def save_tasks_def)
  moreover have "Suc (length (xs @ ys)) = length (tasks_json s)"
    by (simp add: s(1))
  ultimately show ?thesis using s(1,2,3) by auto
qed

text \<open>Deleting task 2 of two tasks, and deleting the absent id 7.\<close>

theorem delete_task_frame_witness:
  "(\<exists>xs t ys. [demo_task 1 ''todo'', demo_task 2 ''done''] = xs @ t # ys \<and> task_id t = Some 2 \<and>
      tasks_json (snd (delete_task 2
        \<lparr>tasks_json = [demo_task 1 ''todo'', demo_task 2 ''done''], writes = 0, out = []\<rparr>)) = xs @ ys) \<and>
   tasks_json (snd (delete_task 7
        \<lparr>tasks_json = [demo_task 1 ''todo'', demo_task 2 ''done''], writes = 0, out = []\<rparr>)) =
     [demo_task 1 ''todo'', demo_task 2 ''done''] \<and>
   writes (snd (delete_task 7
        \<lparr>tasks_json = [demo_task 1 ''todo'', demo_task 2 ''done''], writes = 0, out = []\<rparr>)) = 0"
proof -
  let ?s = "\<lparr>tasks_json = [demo_task 1 ''todo'', demo_task 2 ''done''], writes = 0, out = []\<rparr>"
  have p: "\<exists>t\<in>set (tasks_json ?s). task_id t = Some 2" by (simp add: demo_task_def)
  have n: "\<not> (\<exists>t\<in>set (tasks_json ?s). task_id t = Some 7)" by (simp add: demo_task_def)
  from delete_task_frame [of ?s 2] p
  have "\<exists>xs t ys. tasks_json ?s = xs @ t # ys \<and> task_id t = Some 2 \<and>
      tasks_json (snd (delete_task 2 ?s)) = xs @ ys"
    by blast
  moreover from delete_task_frame [of ?s 7] n
  have "tasks_json (snd (delete_task 7 ?s)) = tasks_json ?s \<and> writes (snd (delete_task 7 ?s)) = writes ?s"
    by blast
  ultimately show ?thesis by simp
qed

subsection \<open>Uniqueness of ids\<close>

lemma valid_ids_iff:
  "valid_ids ts \<longleftrightarrow>
     (\<exists>ns. map task_id ts = map Some ns \<and> (\<forall>n\<in>set ns. 0 < n) \<and> distinct ns)"
proof
  assume v: "valid_ids ts"
  then have "\<forall>t\<in>set ts. \<exists>i. task_id t = Some i \<and> 0 < i"
    by (auto simp: valid_ids_def list_all_iff split: option.splits)
  then have "\<exists>ns. map task_id ts = map Some ns \<and> (\<forall>n\<in>set ns. 0 < n)"
  proof (induction ts)
    case Nil
    then show ?case by simp
  next
    case (Cons t ts)
    then obtain i ns where "task_id t = Some i" "0 < i" "map task_id ts = map Some ns"
      "\<forall>n\<in>set ns. 0 < n"
      by auto
    then have "map task_id (t # ts) = map Some (i # ns) \<and> (\<forall>n\<in>set (i # ns). 0 < n)"
      by simp
    then show ?case by blast
  qed
  then obtain ns where ns: "map task_id ts = map Some ns" "\<forall>n\<in>set ns. 0 < n" by blast
  from v have "distinct (map Some ns)" by (simp add: valid_ids_def ns(1))
  then have "distinct ns" by (simp add: distinct_map)
  with ns show "\<exists>ns. map task_id ts = map Some ns \<and> (\<forall>n\<in>set ns. 0 < n) \<and> distinct ns"
    by blast
next
  assume "\<exists>ns. map task_id ts = map Some ns \<and> (\<forall>n\<in>set ns. 0 < n) \<and> distinct ns"
  then obtain ns where ns: "map task_id ts = map Some ns" "\<forall>n\<in>set ns. 0 < n" "distinct ns"
    by blast
  have "\<exists>i. task_id t = Some i \<and> 0 < i" if "t \<in> set ts" for t
  proof -
    from that have "task_id t \<in> set (map task_id ts)" by simp
    with ns(1,2) show ?thesis by auto
  qed
  then have "list_all (\<lambda>t. case task_id t of None \<Rightarrow> False | Some i \<Rightarrow> 0 < i) ts"
    by (fastforce simp: list_all_iff)
  moreover from ns(3) have "distinct (map task_id ts)"
    by (simp add: ns(1) distinct_map)
  ultimately show "valid_ids ts" by (simp add: valid_ids_def)
qed

lemma distinct_map_remove1: "distinct (map f xs) \<Longrightarrow> distinct (map f (remove1 x xs))"
proof (induction xs)
  case Nil
  then show ?case by simp
next
  case (Cons y ys)
  have "set (remove1 x ys) \<subseteq> set ys" by (rule set_remove1_subset)
  with Cons show ?case by auto
qed

lemma valid_ids_remove1: "valid_ids ts \<Longrightarrow> valid_ids (remove1 t ts)"
proof -
  assume v: "valid_ids ts"
  have "set (remove1 t ts) \<subseteq> set ts" by (rule set_remove1_subset)
  with v show ?thesis
    by (auto simp: valid_ids_def list_all_iff distinct_map_remove1)
qed

lemma valid_ids_new_task:
  assumes "valid_ids (tasks_json s)"
  shows "\<exists>t. new_task now ttl dsc tgs s = Inr (save_tasks (tasks_json s @ [t]) s) \<and>
           task_id t \<notin> set (map task_id (tasks_json s)) \<and> valid_ids (tasks_json s @ [t])"
proof -
  from assms obtain ns where
    ns: "map task_id (tasks_json s) = map Some ns" "\<forall>n\<in>set ns. 0 < n" "distinct ns"
    by (auto simp: valid_ids_iff)
  let ?t = "(Task_init ttl dsc tgs now)\<lparr>task_id := Some (highest ns + 1)\<rparr>"
  have eq: "new_task now ttl dsc tgs s = Inr (save_tasks (tasks_json s @ [?t]) s)"
    using ns(1) by (rule new_task_highest)
  have fresh: "highest ns + 1 \<notin> set ns"
  proof
    assume "highest ns + 1 \<in> set ns"
    then have "highest ns + 1 \<le> highest ns" by (rule highest_ge)
    then show False by simp
  qed
  then have a: "task_id ?t \<notin> set (map task_id (tasks_json s))"
    by (auto simp: ns(1))
  from ns(2) have "\<forall>n\<in>set ns. 0 \<le> n" by auto
  then have "0 < highest ns + 1" using highest_nonneg by force
  with ns fresh have "map task_id (tasks_json s @ [?t]) = map Some (ns @ [highest ns + 1]) \<and>
      (\<forall>n\<in>set (ns @ [highest ns + 1]). 0 < n) \<and> distinct (ns @ [highest ns + 1])"
    by auto
  then have "valid_ids (tasks_json s @ [?t])"
    unfolding valid_ids_iff by blast
  with eq a show ?thesis by blast
qed

lemma valid_ids_step:
  assumes "valid_ids (tasks_json s)"
  shows "\<exists>s'. step x s = Inr s' \<and> valid_ids (tasks_json s')"
proof (cases x)
  case (Create now ttl dsc tgs)
  from valid_ids_new_task [OF assms, of now ttl dsc tgs] obtain t where
    "new_task now ttl dsc tgs s = Inr (save_tasks (tasks_json s @ [t]) s)"
    "valid_ids (tasks_json s @ [t])"
    by blast
  with Create show ?thesis by (simp add: save_tasks_def)
next
  case (Delete tid)
  show ?thesis
  proof (cases "find (\<lambda>t. task_id t = Some tid) (tasks_json s)")
    case None
    with Delete assms show ?thesis
      by (simp add: delete_task_missing py_print_def)
  next
    case (Some t)
    with Delete assms show ?thesis
      by (simp add: delete_task_found py_print_def save_tasks_def valid_ids_remove1)
  qed
qed

lemma valid_ids_run:
  "valid_ids (tasks_json s) \<Longrightarrow> \<exists>s'. run ops s = Inr s' \<and> valid_ids (tasks_json s')"
proof (induction ops arbitrary: s)
  case Nil
  then show ?case by simp
next
  case (Cons x xs)
  from valid_ids_step [OF Cons.prems, of x] obtain s1 where
    s1: "step x s = Inr s1" "valid_ids (tasks_json s1)"
    by blast
  from Cons.IH [OF s1(2)] s1(1) show ?case by simp
qed

lemma fold_max_cases: "fold max ns (m::int) = m \<or> fold max ns m \<in> set ns"
proof (induction ns arbitrary: m)
  case Nil
  show ?case by simp
next
  case (Cons n ns)
  from Cons.IH [of "max n m"] show ?case by (auto simp: max_def split: if_splits)
qed

lemma highest_mem: "ns \<noteq> [] \<Longrightarrow> highest ns \<in> set ns"
proof (cases ns)
  case Nil
  assume "ns \<noteq> []"
  with Nil show ?thesis by simp
next
  case (Cons n ms)
  with fold_max_cases [of ms n] show ?thesis by auto
qed

lemma highest_less: "\<forall>n\<in>set ms. n < h \<Longrightarrow> 0 < h \<Longrightarrow> highest ms < h"
proof (cases "ms = []")
  case True
  assume "0 < h"
  with True show ?thesis by simp
next
  case False
  assume "\<forall>n\<in>set ms. n < h"
  with highest_mem [OF False] show ?thesis by blast
qed

lemma distinct_map_removed:
  "distinct (map f xs) \<Longrightarrow> x \<in> set xs \<Longrightarrow> f x \<notin> f ` set (remove1 x xs)"
proof (induction xs)
  case Nil
  then show ?case by simp
next
  case (Cons y ys)
  show ?case
  proof (cases "x = y")
    case True
    with Cons.prems show ?thesis by simp
  next
    case False
    with Cons.prems have x: "x \<in> set ys" by simp
    then have "f x \<in> f ` set ys" by (rule imageI)
    moreover from Cons.prems have "f y \<notin> f ` set ys" by simp
    ultimately have "f x \<noteq> f y" by auto
    with Cons x False show ?thesis by simp
  qed
qed

lemma delete_highest_then_create:
  assumes v: "valid_ids (tasks_json s)" and ns: "map task_id (tasks_json s) = map Some ns"
    and ne: "ns \<noteq> []"
  shows "\<exists>s1 t i. snd (delete_task (highest ns) s) = s1 \<and>
           Suc (length (tasks_json s1)) = length (tasks_json s) \<and>
           new_task now ttl dsc tgs s1 = Inr (save_tasks (tasks_json s1 @ [t]) s1) \<and>
           task_id t = Some i \<and> i \<le> highest ns"
proof -
  let ?h = "highest ns"
  from highest_mem [OF ne] have "Some ?h \<in> set (map task_id (tasks_json s))"
    by (simp add: ns)
  then have "\<not> (\<forall>x\<in>set (tasks_json s). \<not> task_id x = Some ?h)" by auto
  then obtain t where f: "find (\<lambda>t. task_id t = Some ?h) (tasks_json s) = Some t"
    by (cases "find (\<lambda>t. task_id t = Some ?h) (tasks_json s)") (auto simp: find_None_set)
  from find_split [OF f] obtain xs ys where
    d: "tasks_json s = xs @ t # ys" "task_id t = Some ?h" "remove1 t (tasks_json s) = xs @ ys"
    by blast
  let ?s1 = "snd (delete_task ?h s)"
  have s1: "tasks_json ?s1 = remove1 t (tasks_json s)"
    by (simp add: delete_task_found [OF f] py_print_def save_tasks_def)
  have len: "Suc (length (tasks_json ?s1)) = length (tasks_json s)"
    by (simp add: s1 d(3)) (simp add: d(1))
  have v1: "valid_ids (tasks_json ?s1)"
    using v by (simp add: s1 valid_ids_remove1)
  then obtain ms where ms: "map task_id (tasks_json ?s1) = map Some ms"
    by (auto simp: valid_ids_iff)
  from v have dist: "distinct (map task_id (tasks_json s))" by (simp add: valid_ids_def)
  from d(1) have tin: "t \<in> set (tasks_json s)" by simp
  have below: "m < ?h" if m: "m \<in> set ms" for m
  proof -
    from m have "Some m \<in> set (map task_id (tasks_json ?s1))" by (simp add: ms)
    then have a: "Some m \<in> task_id ` set (remove1 t (tasks_json s))" by (simp add: s1)
    have "set (remove1 t (tasks_json s)) \<subseteq> set (tasks_json s)" by (rule set_remove1_subset)
    with a have "Some m \<in> set (map task_id (tasks_json s))" by auto
    then have "m \<in> set ns" by (auto simp: ns)
    then have "m \<le> ?h" by (rule highest_ge)
    moreover from distinct_map_removed [OF dist tin] a d(2) have "m \<noteq> ?h" by auto
    ultimately show ?thesis by simp
  qed
  from v obtain ns' where ns': "map task_id (tasks_json s) = map Some ns'" "\<forall>n\<in>set ns'. 0 < n"
    by (auto simp: valid_ids_iff)
  from ns ns'(1) have "map Some ns = map Some ns'" by simp
  then have "ns = ns'" by (simp add: inj_map_eq_map)
  with ns'(2) highest_mem [OF ne] have "0 < ?h" by blast
  with below have "highest ms < ?h" by (intro highest_less) auto
  then have "highest ms + 1 \<le> ?h" by simp
  moreover have "new_task now ttl dsc tgs ?s1 =
      Inr (save_tasks (tasks_json ?s1 @ [(Task_init ttl dsc tgs now)\<lparr>task_id := Some (highest ms + 1)\<rparr>]) ?s1)"
    using ms by (rule new_task_highest)
  ultimately show ?thesis using len
    by (intro exI [of _ ?s1] exI [of _ "(Task_init ttl dsc tgs now)\<lparr>task_id := Some (highest ms + 1)\<rparr>"]
        exI [of _ "highest ms + 1"]) simp
qed

text \<open>
  Claim C1, as the code has it. From a store whose ids are valid, every sequence of
  creates and deletes completes and leaves the ids valid: no two tasks of the collection
  share an id. The next create completes as well and gives its task the highest id of
  the collection (0 when it is empty) plus 1, which no task of the collection holds at
  that moment. The ids of deleted tasks are not remembered: when the task with the
  highest id is deleted, the create after it assigns an id that is not above the
  deleted one.
\<close>

theorem ids_unique_new_id_fresh:
  assumes "valid_ids (tasks_json s0)"
  shows "\<exists>s ns. run ops s0 = Inr s \<and> valid_ids (tasks_json s) \<and>
       map task_id (tasks_json s) = map Some ns \<and>
       distinct (map task_id (tasks_json s)) \<and>
       (\<forall>now ttl dsc tgs. \<exists>t.
           new_task now ttl dsc tgs s = Inr (save_tasks (tasks_json s @ [t]) s) \<and>
           task_id t = Some (highest ns + 1) \<and>
           task_id t \<notin> set (map task_id (tasks_json s))) \<and>
       (ns \<noteq> [] \<longrightarrow>
          (\<forall>now ttl dsc tgs. \<exists>s1 t i. snd (delete_task (highest ns) s) = s1 \<and>
              Suc (length (tasks_json s1)) = length (tasks_json s) \<and>
              new_task now ttl dsc tgs s1 = Inr (save_tasks (tasks_json s1 @ [t]) s1) \<and>
              task_id t = Some i \<and> i \<le> highest ns))"
proof -
  from valid_ids_run [OF assms] obtain s where s: "run ops s0 = Inr s" "valid_ids (tasks_json s)"
    by blast
  from s(2) obtain ns where ns: "map task_id (tasks_json s) = map Some ns"
    by (auto simp: valid_ids_iff)
  from s(2) have dist: "distinct (map task_id (tasks_json s))" by (simp add: valid_ids_def)
  have fresh: "Some (highest ns + 1) \<notin> set (map task_id (tasks_json s))"
  proof
    assume "Some (highest ns + 1) \<in> set (map task_id (tasks_json s))"
    then have "highest ns + 1 \<in> set ns" by (auto simp: ns)
    then have "highest ns + 1 \<le> highest ns" by (rule highest_ge)
    then show False by simp
  qed
  have new: "\<exists>t. new_task now ttl dsc tgs s = Inr (save_tasks (tasks_json s @ [t]) s) \<and>
      task_id t = Some (highest ns + 1) \<and> task_id t \<notin> set (map task_id (tasks_json s))"
    for now ttl dsc tgs
    using new_task_highest [OF ns] fresh
    by (intro exI [of _ "(Task_init ttl dsc tgs now)\<lparr>task_id := Some (highest ns + 1)\<rparr>"]) simp
  have again: "\<exists>s1 t i. snd (delete_task (highest ns) s) = s1 \<and>
      Suc (length (tasks_json s1)) = length (tasks_json s) \<and>
      new_task now ttl dsc tgs s1 = Inr (save_tasks (tasks_json s1 @ [t]) s1) \<and>
      task_id t = Some i \<and> i \<le> highest ns"
    if "ns \<noteq> []" for now ttl dsc tgs
    using s(2) ns that by (rule delete_highest_then_create)
  from s ns dist new again show ?thesis by blast
qed

text \<open>
  Three creates and the deletion of task 2 on the empty store: the ids are 1 and 3, the
  next create assigns 4, and after deleting task 3 the next create assigns an id of at
  most 3.
\<close>

theorem ids_unique_new_id_fresh_witness:
  "\<exists>s. run [Create ''2024-05-01 09:00'' ''a'' ''b'' [], Create ''2024-05-01 09:01'' ''c'' ''d'' [],
           Create ''2024-05-01 09:02'' ''e'' ''f'' [], Delete 2] empty_store = Inr s \<and>
       map task_id (tasks_json s) = [Some 1, Some 3] \<and>
       distinct (map task_id (tasks_json s)) \<and>
       (\<exists>t. new_task ''2024-05-01 09:03'' ''g'' ''h'' [] s = Inr (save_tasks (tasks_json s @ [t]) s) \<and>
            task_id t = Some 4 \<and> task_id t \<notin> set (map task_id (tasks_json s))) \<and>
       (\<exists>t i. new_task ''2024-05-01 09:03'' ''g'' ''h'' [] (snd (delete_task 3 s)) =
            Inr (save_tasks (tasks_json (snd (delete_task 3 s)) @ [t]) (snd (delete_task 3 s))) \<and>
            task_id t = Some i \<and> i \<le> 3)"
proof -
  let ?ops = "[Create ''2024-05-01 09:00'' ''a'' ''b'' [], Create ''2024-05-01 09:01'' ''c'' ''d'' [],
           Create ''2024-05-01 09:02'' ''e'' ''f'' [], Delete 2]"
  have v: "valid_ids (tasks_json empty_store)" by (simp add: valid_ids_def empty_store_def)
  from ids_unique_new_id_fresh [OF v, of ?ops] obtain s ns where
    r: "run ?ops empty_store = Inr s" "map task_id (tasks_json s) = map Some ns"
      "distinct (map task_id (tasks_json s))"
      "\<forall>now ttl dsc tgs. \<exists>t.
           new_task now ttl dsc tgs s = Inr (save_tasks (tasks_json s @ [t]) s) \<and>
           task_id t = Some (highest ns + 1) \<and>
           task_id t \<notin> set (map task_id (tasks_json s))"
      "ns \<noteq> [] \<longrightarrow>
          (\<forall>now ttl dsc tgs. \<exists>s1 t i. snd (delete_task (highest ns) s) = s1 \<and>
              Suc (length (tasks_json s1)) = length (tasks_json s) \<and>
              new_task now ttl dsc tgs s1 = Inr (save_tasks (tasks_json s1 @ [t]) s1) \<and>
              task_id t = Some i \<and> i \<le> highest ns)"
    by blast
  have "ids_after ?ops empty_store = Some [Some 1, Some 3]"
    by (simp add: ids_after_def empty_store_def new_task_def delete_task_def load_tasks_def
        save_tasks_def py_print_def Task_init_def)
  with r(1) have ids: "map task_id (tasks_json s) = [Some 1, Some 3]"
    by (simp add: ids_after_def)
  with r(2) have "map Some ns = map Some [1, 3]" by simp
  then have ns: "ns = [1, 3]" by (simp only: inj_map_eq_map [OF inj_Some])
  then have h: "highest ns = 3" by simp
  have h4: "highest ns + 1 = 4" by (simp add: h)
  have a: "\<exists>t. new_task ''2024-05-01 09:03'' ''g'' ''h'' [] s =
      Inr (save_tasks (tasks_json s @ [t]) s) \<and>
      task_id t = Some 4 \<and> task_id t \<notin> set (map task_id (tasks_json s))"
    using r(4) [rule_format, of "''2024-05-01 09:03''" "''g''" "''h''" "[]"]
    unfolding h4 .
  from ns have ne: "ns \<noteq> []" by simp
  from r(5) [THEN mp, OF ne] have all: "\<forall>now ttl dsc tgs. \<exists>s1 t i. snd (delete_task (highest ns) s) = s1 \<and>
              Suc (length (tasks_json s1)) = length (tasks_json s) \<and>
              new_task now ttl dsc tgs s1 = Inr (save_tasks (tasks_json s1 @ [t]) s1) \<and>
              task_id t = Some i \<and> i \<le> highest ns"
    .
  from all [rule_format, of "''2024-05-01 09:03''" "''g''" "''h''" "[]"]
  obtain s1 t i where
    c: "snd (delete_task (highest ns) s) = s1"
      "new_task ''2024-05-01 09:03'' ''g'' ''h'' [] s1 = Inr (save_tasks (tasks_json s1 @ [t]) s1)"
      "task_id t = Some i" "i \<le> highest ns"
    by (elim exE conjE)
  from c(1) h have s1: "s1 = snd (delete_task 3 s)" by simp
  have b: "\<exists>t i. new_task ''2024-05-01 09:03'' ''g'' ''h'' [] (snd (delete_task 3 s)) =
      Inr (save_tasks (tasks_json (snd (delete_task 3 s)) @ [t]) (snd (delete_task 3 s))) \<and>
      task_id t = Some i \<and> i \<le> 3"
    using c(2,3,4) unfolding s1 h by (intro exI conjI)
  from r(1,3) ids a b show ?thesis by (intro exI [of _ s] conjI)
qed

text \<open>
  Claim C1 as stated fails: create, delete 1, create hands out the id 1 twice, since the
  second create finds an empty collection.
\<close>

theorem id_reassigned_after_delete:
  "assigned_ids [Create ''2024-05-01 09:00'' ''a'' ''b'' [], Delete 1,
                 Create ''2024-05-01 09:01'' ''c'' ''d'' []] empty_store = [Some 1, Some 1]"
  by (simp add: empty_store_def new_task_def delete_task_def load_tasks_def save_tasks_def
      py_print_def Task_init_def)

subsection \<open>Creation over a collection with a null id\<close>

text \<open>
  Claim C4 fails on \<open>new_task\<close>. A record without an \<open>id\<close> key loads with the id \<open>None\<close>;
  on that collection \<open>max\<close> returns \<open>None\<close>, \<open>None + 1\<close> raises \<open>TypeError\<close>, and nothing
  in \<open>new_task\<close> catches it.
\<close>

theorem new_task_null_id_raises:
  "new_task ''2024-05-01 09:00'' ''x'' ''y'' []
     \<lparr>tasks_json = [(demo_task 1 ''todo'')\<lparr>task_id := None\<rparr>], writes = 0, out = []\<rparr> =
   Inl TypeError"
  by (simp add: new_task_def load_tasks_def demo_task_def)

subsection \<open>Status transitions\<close>












lemma apply_first_unchanged: "\<exists>t\<in>set ts. p t \<Longrightarrow> apply_first p (\<lambda>t. t) ts = Some ts"
  by (induction ts) auto

text \<open>
  Claim C10, as the code has it. For a positive id that a task of the collection holds
  and an action that is neither \<open>start\<close> nor \<open>finish\<close>, \<open>update_status\<close> returns \<open>True\<close>
  and saves the collection as it was loaded: no task changes, and the file is rewritten
  once. For an id that is not positive, whatever the collection holds, the guard prints
  the invalid-id error and returns \<open>None\<close>; the file is not rewritten.
\<close>

theorem unknown_action_reports_success:
  "(0 < tid \<and> (\<exists>t\<in>set (tasks_json s). task_id t = Some tid) \<and>
      action \<noteq> ''start'' \<and> action \<noteq> ''finish'' \<longrightarrow>
      update_status now tid action s = (PyBool True, save_tasks (tasks_json s) s) \<and>
      tasks_json (save_tasks (tasks_json s) s) = tasks_json s \<and>
      writes (save_tasks (tasks_json s) s) = Suc (writes s)) \<and>
   (tid \<le> 0 \<longrightarrow> update_status now tid action s = (PyNone, py_print InvalidTaskId s) \<and>
      tasks_json (py_print InvalidTaskId s) = tasks_json s \<and>
      writes (py_print InvalidTaskId s) = writes s)"
proof (intro conjI impI)
  assume a: "0 < tid \<and> (\<exists>t\<in>set (tasks_json s). task_id t = Some tid) \<and>
      action \<noteq> ''start'' \<and> action \<noteq> ''finish''"
  then have "set_status now action = (\<lambda>t. t)"
    by (simp add: set_status_def fun_eq_iff)
  then have "apply_first (\<lambda>t. task_id t = Some tid) (set_status now action) (tasks_json s) =
      Some (tasks_json s)"
    using a by (simp add: apply_first_unchanged)
  with a show "update_status now tid action s = (PyBool True, save_tasks (tasks_json s) s)"
    by (simp add: update_status_def load_tasks_def)
  show "tasks_json (save_tasks (tasks_json s) s) = tasks_json s"
    by (simp add: save_tasks_def)
  show "writes (save_tasks (tasks_json s) s) = Suc (writes s)"
    by (simp add: save_tasks_def)
next
  assume "tid \<le> 0"
  then show "update_status now tid action s = (PyNone, py_print InvalidTaskId s)"
    by (simp add: update_status_def)
  show "tasks_json (py_print InvalidTaskId s) = tasks_json s"
    by (simp add: py_print_def)
  show "writes (py_print InvalidTaskId s) = writes s"
    by (simp add: py_print_def)
qed

text \<open>
  The action \<open>pause\<close> on the id 1, in a collection that also has a record without an id
  and a second record with the id 1; and on the id -4.
\<close>

theorem unknown_action_reports_success_witness:
  "update_status ''2024-05-03 08:15'' 1 ''pause''
     \<lparr>tasks_json = [(demo_task 1 ''todo'')\<lparr>task_id := None\<rparr>, demo_task 1 ''todo'',
                    demo_task 1 ''done''], writes = 0, out = []\<rparr> =
   (PyBool True,
    \<lparr>tasks_json = [(demo_task 1 ''todo'')\<lparr>task_id := None\<rparr>, demo_task 1 ''todo'',
                    demo_task 1 ''done''], writes = 1, out = []\<rparr>) \<and>
   fst (update_status ''2024-05-03 08:15'' (- 4) ''pause''
     \<lparr>tasks_json = [(demo_task 1 ''todo'')\<lparr>task_id := None\<rparr>, demo_task 1 ''todo'',
                    demo_task 1 ''done''], writes = 0, out = []\<rparr>) = PyNone"
proof -
  let ?s = "\<lparr>tasks_json = [(demo_task 1 ''todo'')\<lparr>task_id := None\<rparr>, demo_task 1 ''todo'',
                    demo_task 1 ''done''], writes = 0, out = []\<rparr>"
  have h: "(0::int) < 1 \<and> (\<exists>t\<in>set (tasks_json ?s). task_id t = Some 1) \<and>
      ''pause'' \<noteq> ''start'' \<and> ''pause'' \<noteq> ''finish''"
    by (simp add: demo_task_def)
  from unknown_action_reports_success [of 1 ?s "''pause''" "''2024-05-03 08:15''"] h
  have a: "update_status ''2024-05-03 08:15'' 1 ''pause'' ?s = (PyBool True, save_tasks (tasks_json ?s) ?s)"
    by blast
  from unknown_action_reports_success [of "- 4" ?s "''pause''" "''2024-05-03 08:15''"]
  have b: "fst (update_status ''2024-05-03 08:15'' (- 4) ''pause'' ?s) = PyNone"
    by simp
  from a b show ?thesis by (simp add: save_tasks_def)
qed

text \<open>
  Claim C10 as stated fails for an id that is not positive: a record read from the file
  can carry the id 0, and for it \<open>update_status\<close> returns \<open>None\<close> and does not rewrite
  the file.
\<close>

theorem unknown_action_on_nonpositive_id:
  "update_status ''2024-05-03 08:15'' 0 ''pause''
     \<lparr>tasks_json = [demo_task 0 ''todo''], writes = 0, out = []\<rparr> =
   (PyNone, \<lparr>tasks_json = [demo_task 0 ''todo''], writes = 0, out = [InvalidTaskId]\<rparr>) \<and>
   task_id (demo_task 0 ''todo'') = Some 0"
  by (simp add: update_status_def py_print_def demo_task_def)

subsection \<open>Queries\<close>

lemma stage_not_given: "\<not> given a \<Longrightarrow> stage a keep ts = ts"
  by (cases a) auto

lemma list_tasks_no_sort:
  "\<not> given sort_arg \<Longrightarrow>
     list_tasks inherited status_arg tag sort_arg search s =
       Inr (stage search (\<lambda>v t. sublist v (title t) \<or> sublist v (desc t))
         (stage tag (\<lambda>v t. v \<in> set (tags t))
           (stage status_arg (\<lambda>v t. status t = v) (tasks_json s))))"
  by (cases sort_arg) (simp_all add: list_tasks_def load_tasks_def)

text \<open>
  Claim C7. With a status argument (a non-empty string, as every status is) and no
  sort, \<open>list_tasks\<close> returns the tasks of the stored collection whose status equals
  the argument, in the order they have in the collection, narrowed further by the tag
  and the search text when these are given; with neither given, the result is exactly
  the tasks with that status.
\<close>

theorem list_tasks_by_status:
  assumes "st \<noteq> []" and "\<not> given sort_arg"
  shows "list_tasks inherited (Some st) tag sort_arg search s =
       Inr (stage search (\<lambda>v t. sublist v (title t) \<or> sublist v (desc t))
         (stage tag (\<lambda>v t. v \<in> set (tags t))
           (filter (\<lambda>t. status t = st) (tasks_json s)))) \<and>
     (\<not> given tag \<and> \<not> given search \<longrightarrow>
        list_tasks inherited (Some st) tag sort_arg search s =
          Inr (filter (\<lambda>t. status t = st) (tasks_json s)))"
  using assms by (simp add: list_tasks_no_sort stage_not_given)

text \<open>The status \<open>done\<close> over three tasks selects the first and the third.\<close>

theorem list_tasks_by_status_witness:
  "list_tasks (\<lambda>n. None) (Some ''done'') None None None
     \<lparr>tasks_json = [demo_task 1 ''done'', demo_task 2 ''todo'', demo_task 3 ''done''],
      writes = 0, out = []\<rparr> =
   Inr [demo_task 1 ''done'', demo_task 3 ''done'']"
proof -
  have a: "''done'' \<noteq> []" "\<not> given None" by simp_all
  from list_tasks_by_status [OF a, of "\<lambda>n. None" None None] show ?thesis
    by (simp add: demo_task_def)
qed

lemma insort_key_decorated:
  "insort_key fst (f x, x) (map (\<lambda>t. (f t, t)) ys) = map (\<lambda>t. (f t, t)) (insort_key f x ys)"
  by (induction ys) auto

lemma sort_key_decorated:
  "map snd (sort_key fst (zip (map f ts) ts)) = sort_key f ts"
proof -
  have z: "zip (map f ts) ts = map (\<lambda>t. (f t, t)) ts" for ts :: "'a list"
    by (induction ts) auto
  have "sort_key fst (map (\<lambda>t. (f t, t)) ts) = map (\<lambda>t. (f t, t)) (sort_key f ts)"
    by (induction ts) (auto simp: insort_key_decorated)
  then show ?thesis by (simp add: z comp_def)
qed

lemma sort_key_short: "length ts \<le> 1 \<Longrightarrow> sort_key f ts = ts"
  by (cases ts) auto

lemma strs_of_AStr: "strs_of (map (\<lambda>t. AStr (f t)) ts) = Some (map f ts)"
  by (induction ts) auto

lemma py_sort_strings: "py_sort (map (\<lambda>t. AStr (f t)) ts) ts = Inr (sort_key f ts)"
  by (simp add: py_sort_def strs_of_AStr sort_key_decorated sort_key_short)

lemma compute_keys_all:
  "\<forall>t\<in>set ts. sort_key_py inherited k t = Inr (AStr (f t)) \<Longrightarrow>
     compute_keys inherited k ts = Inr (map (\<lambda>t. AStr (f t)) ts)"
  by (induction ts) auto

lemma sort_key_py_timestamp:
  assumes "(k, fld) \<in> set [(''created_at'', created_at), (''started_at'', started_at),
      (''finished_at'', finished_at)]"
  shows "sort_key_py inherited k t = Inr (AStr (or_sentinel (fld t)))"
proof -
  have "sort_key_py inherited ''created_at'' t = Inr (AStr (or_sentinel (created_at t)))"
    by (cases "created_at t") (simp_all add: sort_key_py_def getattr_def opt_str_def)
  moreover have "sort_key_py inherited ''started_at'' t = Inr (AStr (or_sentinel (started_at t)))"
    by (cases "started_at t") (simp_all add: sort_key_py_def getattr_def opt_str_def)
  moreover have "sort_key_py inherited ''finished_at'' t = Inr (AStr (or_sentinel (finished_at t)))"
    by (cases "finished_at t") (simp_all add: sort_key_py_def getattr_def opt_str_def)
  ultimately show ?thesis using assms by auto
qed

lemma list_tasks_timestamp_sort:
  assumes "(k, fld) \<in> set [(''created_at'', created_at), (''started_at'', started_at),
      (''finished_at'', finished_at)]"
  shows "list_tasks inherited status_arg tag (Some k) search s =
    Inr (sort_key (\<lambda>t. or_sentinel (fld t))
      (stage search (\<lambda>v t. sublist v (title t) \<or> sublist v (desc t))
        (stage tag (\<lambda>v t. v \<in> set (tags t))
          (stage status_arg (\<lambda>v t. status t = v) (tasks_json s)))))"
proof -
  from assms have ne: "k \<noteq> []" by auto
  have "compute_keys inherited k ts = Inr (map (\<lambda>t. AStr (or_sentinel (fld t))) ts)" for ts
    by (rule compute_keys_all) (simp add: sort_key_py_timestamp [OF assms])
  with ne show ?thesis
    by (simp add: list_tasks_def load_tasks_def py_sort_strings)
qed

lemma pointwise_le_lex: "list_all2 (\<le>) xs ys \<Longrightarrow> xs \<le> (ys :: 'a::linorder list)"
  by (induction rule: list_all2_induct) (auto simp: le_less)

lemma sentinel_below_timestamp: "is_timestamp v \<Longrightarrow> sentinel < v"
proof (erule is_timestamp.elims(2))
  fix y1 y2 y3 y4 d1 m1 m2 d2 a1 a2 sp h1 h2 cl n1 n2
  assume v: "v = [y1, y2, y3, y4, d1, m1, m2, d2, a1, a2, sp, h1, h2, cl, n1, n2]"
    and c: "list_all is_digit [y1, y2, y3, y4, m1, m2, a1, a2, h1, h2, n1, n2] \<and>
      d1 = CHR ''-'' \<and> d2 = CHR ''-'' \<and> sp = CHR '' '' \<and> cl = CHR '':'' \<and>
      [m1, m2] \<noteq> ''00''"
  from c have "list_all2 (\<le>) sentinel v"
    by (simp add: v sentinel_def is_digit_def)
  then have "sentinel \<le> v" by (rule pointwise_le_lex)
  moreover from c have "sentinel \<noteq> v" by (auto simp: v sentinel_def)
  ultimately show "sentinel < v" by simp
qed

text \<open>
  Claim C8. With the sort key \<open>created_at\<close>, \<open>started_at\<close> or \<open>finished_at\<close>, whatever
  the filters, \<open>list_tasks\<close> returns the tasks that pass the filters (all tasks of the
  stored collection when no filter is given), each as often as it passed, in
  non-decreasing order of the chosen attribute, where \<open>None\<close> counts as the sentinel;
  tasks with equal keys keep their order. The sentinel is below every timestamp, so
  when the attribute values returned are timestamps, no task with a value stands before
  a task without one.
\<close>

theorem list_tasks_sorted_by_timestamp:
  assumes "(k, fld) \<in> set [(''created_at'', created_at), (''started_at'', started_at),
      (''finished_at'', finished_at)]"
  shows "\<exists>r. list_tasks inherited status_arg tag (Some k) search s = Inr r \<and>
      mset r = mset (stage search (\<lambda>v t. sublist v (title t) \<or> sublist v (desc t))
                 (stage tag (\<lambda>v t. v \<in> set (tags t))
                   (stage status_arg (\<lambda>v t. status t = v) (tasks_json s)))) \<and>
      (\<not> given status_arg \<and> \<not> given tag \<and> \<not> given search \<longrightarrow> mset r = mset (tasks_json s)) \<and>
      sorted (map (\<lambda>t. or_sentinel (fld t)) r) \<and>
      (\<forall>x. filter (\<lambda>t. or_sentinel (fld t) = x) r =
           filter (\<lambda>t. or_sentinel (fld t) = x)
             (stage search (\<lambda>v t. sublist v (title t) \<or> sublist v (desc t))
               (stage tag (\<lambda>v t. v \<in> set (tags t))
                 (stage status_arg (\<lambda>v t. status t = v) (tasks_json s))))) \<and>
      (\<forall>v. is_timestamp v \<longrightarrow> sentinel < v) \<and>
      ((\<forall>t\<in>set r. \<forall>v. fld t = Some v \<longrightarrow> is_timestamp v) \<longrightarrow>
         (\<forall>i j. i < j \<and> j < length r \<and> fld (r ! j) = None \<longrightarrow> fld (r ! i) = None))"
proof -
  let ?key = "\<lambda>t. or_sentinel (fld t)"
  let ?sel = "stage search (\<lambda>v t. sublist v (title t) \<or> sublist v (desc t))
                 (stage tag (\<lambda>v t. v \<in> set (tags t))
                   (stage status_arg (\<lambda>v t. status t = v) (tasks_json s)))"
  let ?r = "sort_key ?key ?sel"
  have res: "list_tasks inherited status_arg tag (Some k) search s = Inr ?r"
    using assms by (rule list_tasks_timestamp_sort)
  have perm: "mset ?r = mset ?sel" by simp
  have all: "\<not> given status_arg \<and> \<not> given tag \<and> \<not> given search \<longrightarrow>
      mset ?r = mset (tasks_json s)"
    by (simp add: stage_not_given)
  have srt: "sorted (map ?key ?r)" by (rule sorted_sort_key)
  have stable: "filter (\<lambda>t. ?key t = x) ?r = filter (\<lambda>t. ?key t = x) ?sel" for x
    by (rule sort_key_stable)
  have first: "fld (?r ! i) = None"
    if ts: "\<forall>t\<in>set ?r. \<forall>v. fld t = Some v \<longrightarrow> is_timestamp v"
      and ij: "i < j \<and> j < length ?r \<and> fld (?r ! j) = None" for i j
  proof (rule ccontr)
    assume "fld (?r ! i) \<noteq> None"
    then obtain v where v: "fld (?r ! i) = Some v" by auto
    from ij have "i < length ?r" by linarith
    then have "?r ! i \<in> set ?r" by (rule nth_mem)
    with ts v have "is_timestamp v" by blast
    then have "sentinel < v" by (rule sentinel_below_timestamp)
    moreover from srt ij have "map ?key ?r ! i \<le> map ?key ?r ! j"
      by (intro sorted_nth_mono) simp_all
    with ij v have "v \<le> sentinel" by simp
    ultimately show False by simp
  qed
  show ?thesis
  proof (intro exI [of _ ?r] conjI)
    show "list_tasks inherited status_arg tag (Some k) search s = Inr ?r" by (rule res)
    show "mset ?r = mset ?sel" by (rule perm)
    show "\<not> given status_arg \<and> \<not> given tag \<and> \<not> given search \<longrightarrow> mset ?r = mset (tasks_json s)"
      by (rule all)
    show "sorted (map ?key ?r)" by (rule srt)
    show "\<forall>x. filter (\<lambda>t. ?key t = x) ?r = filter (\<lambda>t. ?key t = x) ?sel"
      using stable by blast
    show "\<forall>v. is_timestamp v \<longrightarrow> sentinel < v"
      using sentinel_below_timestamp by blast
    show "(\<forall>t\<in>set ?r. \<forall>v. fld t = Some v \<longrightarrow> is_timestamp v) \<longrightarrow>
         (\<forall>i j. i < j \<and> j < length ?r \<and> fld (?r ! j) = None \<longrightarrow> fld (?r ! i) = None)"
      using first by blast
  qed
qed

text \<open>
  Five tasks, the status filter \<open>done\<close> and the sort key \<open>started_at\<close>: the two finished
  tasks that were never started come first, in their stored order.
\<close>

theorem list_tasks_sorted_by_timestamp_witness:
  "\<exists>r. list_tasks (\<lambda>n. None) (Some ''done'') None (Some ''started_at'') None
        \<lparr>tasks_json = [(demo_task 1 ''done'')\<lparr>started_at := Some ''2024-05-02 11:30''\<rparr>,
                       demo_task 2 ''todo'',
                       (demo_task 3 ''done'')\<lparr>started_at := Some ''2024-05-01 10:00''\<rparr>,
                       demo_task 4 ''done'',
                       demo_task 5 ''done''],
         writes = 0, out = []\<rparr> = Inr r \<and>
      r = [demo_task 4 ''done'', demo_task 5 ''done'',
           (demo_task 3 ''done'')\<lparr>started_at := Some ''2024-05-01 10:00''\<rparr>,
           (demo_task 1 ''done'')\<lparr>started_at := Some ''2024-05-02 11:30''\<rparr>] \<and>
      sorted (map (\<lambda>t. or_sentinel (started_at t)) r) \<and>
      started_at (r ! 0) = None \<and>
      sentinel < ''2024-05-01 10:00''"
proof -
  let ?a = "(demo_task 1 ''done'')\<lparr>started_at := Some ''2024-05-02 11:30''\<rparr>"
  let ?b = "demo_task 2 ''todo''"
  let ?c = "(demo_task 3 ''done'')\<lparr>started_at := Some ''2024-05-01 10:00''\<rparr>"
  let ?d = "demo_task 4 ''done''"
  let ?e = "demo_task 5 ''done''"
  let ?s = "\<lparr>tasks_json = [?a, ?b, ?c, ?d, ?e], writes = 0, out = []\<rparr>"
  have m: "(''started_at'', started_at) \<in> set [(''created_at'', created_at),
      (''started_at'', started_at), (''finished_at'', finished_at)]"
    by simp
  from list_tasks_sorted_by_timestamp [OF m, of "\<lambda>n. None" "Some ''done''" None None ?s]
  obtain r where
    r: "list_tasks (\<lambda>n. None) (Some ''done'') None (Some ''started_at'') None ?s = Inr r"
      "sorted (map (\<lambda>t. or_sentinel (started_at t)) r)"
      "\<forall>v. is_timestamp v \<longrightarrow> sentinel < v"
      "(\<forall>t\<in>set r. \<forall>v. started_at t = Some v \<longrightarrow> is_timestamp v) \<longrightarrow>
         (\<forall>i j. i < j \<and> j < length r \<and> started_at (r ! j) = None \<longrightarrow> started_at (r ! i) = None)"
    by (elim exE conjE)
  have "is_timestamp ''2024-05-01 10:00''" by (simp add: is_digit_def)
  with r(3) have lt: "sentinel < ''2024-05-01 10:00''" by blast
  have "list_tasks (\<lambda>n. None) (Some ''done'') None (Some ''started_at'') None ?s = Inr [?d, ?e, ?c, ?a]"
    by (simp add: list_tasks_def load_tasks_def py_sort_def sort_key_py_def getattr_def
        opt_str_def demo_task_def Task_init_def sentinel_def)
  with r(1) have eq: "r = [?d, ?e, ?c, ?a]" by simp
  have ts: "\<forall>t\<in>set r. \<forall>v. started_at t = Some v \<longrightarrow> is_timestamp v"
    by (simp add: eq demo_task_def Task_init_def is_digit_def)
  from r(4) [THEN mp, OF ts] have "(0::nat) < 1 \<and> 1 < length r \<and> started_at (r ! 1) = None \<longrightarrow>
      started_at (r ! 0) = None"
    by (elim allE)
  moreover have "(0::nat) < 1 \<and> 1 < length r \<and> started_at (r ! 1) = None"
    by (simp add: eq demo_task_def Task_init_def)
  ultimately have first: "started_at (r ! 0) = None" by (rule mp)
  from r(1,2) eq first lt show ?thesis by (intro exI [of _ r] conjI)
qed

end
